theory Spec2Isabelle
  imports Main "HOL-Library.AList"
begin

section \<open>Values, event objects and listeners\<close>

text \<open>
  The emitter stores listener functions and passes arbitrary JavaScript values to them.
  A listener is identified by its function reference (\<open>lid\<close>); an object lives in a
  store and is named by its address. Of an object only what \<open>Event.isCancellable\<close> and
  the dispatch loop read is kept: whether it is an instance of \<open>Event\<close>, and its fields
  \<open>cancellable\<close> and \<open>cancelled\<close> (a missing field reads as \<open>undefined\<close>).
  Numbers are integers here (\<open>NaN\<close> is left out).
\<close>

type_synonym lid = nat

datatype jsval =
    VUndefined
  | VNull
  | VBool bool
  | VNum int
  | VStr string
  | VFun lid
  | VRef nat

record obj =
  instanceofEvent :: bool
  cancellable :: jsval
  cancelled :: jsval

type_synonym heap = "nat \<Rightarrow> obj"

text \<open>JavaScript's conversion of a value to a boolean, as \<open>if\<close>, \<open>!\<close>, \<open>&&\<close> and \<open>?:\<close> use it.\<close>

fun truthy :: "jsval \<Rightarrow> bool" where
  "truthy VUndefined = False"
| "truthy VNull = False"
| "truthy (VBool b) = b"
| "truthy (VNum n) = (n \<noteq> 0)"
| "truthy (VStr s) = (s \<noteq> [])"
| "truthy (VFun f) = True"
| "truthy (VRef r) = True"

text \<open>
  \<open>Event.isCancellable\<close>: \<open>that instanceof Event && that.cancellable\<close>. The result is
  the value of the \<open>&&\<close> expression: \<open>false\<close> when the left operand fails, the field otherwise.
\<close>

fun isCancellable :: "heap \<Rightarrow> jsval \<Rightarrow> jsval" where
  "isCancellable h (VRef r) =
     (if instanceofEvent (h r) then cancellable (h r) else VBool False)"
| "isCancellable h that = VBool False"

text \<open>The read \<open>event.cancelled\<close> of the loop.\<close>

fun cancelled_of :: "heap \<Rightarrow> jsval \<Rightarrow> jsval" where
  "cancelled_of h (VRef r) = cancelled (h r)"
| "cancelled_of h v = VUndefined"

text \<open>
  A listener call either returns (its promise, if any, fulfils) or throws (or its promise
  rejects) with a value; \<open>await\<close> inside \<open>try\<close> treats both kinds of failure alike. The
  call may change the objects of the store, among them the event object it was given.
  Listeners are assumed to settle, and not to call back into the emitter whose listener
  map is being read.
\<close>

datatype outcome = Returned | Threw jsval

type_synonym behaviour = "lid \<Rightarrow> jsval list \<Rightarrow> heap \<Rightarrow> outcome \<times> heap"

section \<open>The listener map\<close>

text \<open>
  \<open>EventListenerSet\<close> holds the listeners of one event name and the index at which the
  passive ones start. Each stored listener carries a ghost mark \<open>is_passive\<close>, written when
  it is inserted and never read by the operations: it records whether the listener was
  registered with \<open>ListenerType.PASSIVE\<close>, so that the meaning of \<open>passiveIdx\<close> can be
  stated.
\<close>

datatype entry = Entry (fn: lid) (is_passive: bool)

record EventListenerSet =
  listeners :: "entry list"
  passiveIdx :: nat

text \<open>
  \<open>listenerMap\<close> is an object used as a dictionary from event names to sets: an
  association list with distinct keys, in the order the keys were created. Event names
  are assumed not to be names that every object inherits (such as \<open>constructor\<close>).
\<close>

type_synonym listenerMap = "(string \<times> EventListenerSet) list"

text \<open>\<open>DefaultEventEmitter.initialize\<close>: \<open>object.listenerMap = {}\<close>.\<close>

definition initialize :: listenerMap where
  "initialize = []"

text \<open>
  \<open>const enum ListenerType { ACTIVE, PASSIVE, EARLY }\<close> numbers its members 0, 1, 2.
  The parameter \<open>type\<close> of \<open>onImpl\<close> is a number or a boolean, and may be left out.
\<close>

datatype tier_arg = TNum int | TBool bool

definition ACTIVE :: tier_arg where "ACTIVE = TNum 0"
definition PASSIVE :: tier_arg where "PASSIVE = TNum 1"
definition EARLY :: tier_arg where "EARLY = TNum 2"

text \<open>
  The default value of the parameter and the legacy workaround at the head of \<open>onImpl\<close>:
  \<open>true\<close> becomes \<open>EARLY\<close>, \<open>false\<close> becomes \<open>ACTIVE\<close>, anything else is kept.
\<close>

fun legacy :: "tier_arg option \<Rightarrow> tier_arg" where
  "legacy None = ACTIVE"
| "legacy (Some (TBool True)) = EARLY"
| "legacy (Some (TBool False)) = ACTIVE"
| "legacy (Some t) = t"

text \<open>A detached (not awaited) call of \<open>emitImpl\<close>: the event name and the arguments.\<close>

type_synonym signal = "string \<times> jsval list"

definition newListener :: "string \<Rightarrow> lid \<Rightarrow> signal" where
  "newListener eventName listener = (''newListener'', [VStr eventName, VFun listener])"

definition removeListener :: "string \<Rightarrow> lid \<Rightarrow> signal" where
  "removeListener eventName listener = (''removeListener'', [VStr eventName, VFun listener])"

text \<open>\<open>xs.splice(i, 0, x)\<close>; a start beyond the end is clamped to the end.\<close>

definition splice_in :: "nat \<Rightarrow> 'a \<Rightarrow> 'a list \<Rightarrow> 'a list" where
  "splice_in i x xs = take i xs @ x # drop i xs"

text \<open>\<open>xs.splice(i, 1)\<close>: what is left of \<open>xs\<close>.\<close>

definition splice_out :: "nat \<Rightarrow> 'a list \<Rightarrow> 'a list" where
  "splice_out i xs = take i xs @ drop (Suc i) xs"

text \<open>\<open>xs.indexOf(x)\<close>; \<open>None\<close> stands for \<open>-1\<close>.\<close>

fun indexOf :: "'a list \<Rightarrow> 'a \<Rightarrow> nat option" where
  "indexOf [] x = None"
| "indexOf (y # ys) x = (if y = x then Some 0 else map_option Suc (indexOf ys x))"

section \<open>Registration: \<open>onImpl\<close>\<close>

text \<open>
  \<open>onImpl(eventName, listener, type)\<close>. The result is the listener map after the call
  and the detached \<open>newListener\<close> emission the call starts. When a set exists and \<open>type\<close>
  matches no \<open>case\<close> of the \<open>switch\<close>, nothing is inserted; the emission is started all
  the same. \<open>passiveIdx\<close> is a natural number: the code only decrements it when it is
  greater than an index.
\<close>

definition onImpl ::
  "listenerMap \<Rightarrow> string \<Rightarrow> lid \<Rightarrow> tier_arg option \<Rightarrow> listenerMap \<times> signal list" where
  "onImpl m eventName listener type' =
     (let type = legacy type' in
      ((case map_of m eventName of
          None \<Rightarrow>
            AList.update eventName
              \<lparr>listeners = [Entry listener (type = PASSIVE)],
               passiveIdx = (if type = PASSIVE then 0 else 1)\<rparr> m
        | Some lset \<Rightarrow>
            if type = ACTIVE then
              AList.update eventName
                \<lparr>listeners = splice_in (passiveIdx lset) (Entry listener False) (listeners lset),
                 passiveIdx = passiveIdx lset + 1\<rparr> m
            else if type = EARLY then
              AList.update eventName
                \<lparr>listeners = Entry listener False # listeners lset,
                 passiveIdx = passiveIdx lset + 1\<rparr> m
            else if type = PASSIVE then
              AList.update eventName
                \<lparr>listeners = listeners lset @ [Entry listener True],
                 passiveIdx = passiveIdx lset\<rparr> m
            else m),
       [newListener eventName listener]))"

text \<open>\<open>addPassiveListenerImpl\<close> and \<open>prependListenerImpl\<close>.\<close>

definition addPassiveListenerImpl ::
  "listenerMap \<Rightarrow> string \<Rightarrow> lid \<Rightarrow> listenerMap \<times> signal list" where
  "addPassiveListenerImpl m eventName listener = onImpl m eventName listener (Some PASSIVE)"

definition prependListenerImpl ::
  "listenerMap \<Rightarrow> string \<Rightarrow> lid \<Rightarrow> listenerMap \<times> signal list" where
  "prependListenerImpl m eventName listener = onImpl m eventName listener (Some (TBool True))"

section \<open>Removal: \<open>offImpl\<close>\<close>

text \<open>
  \<open>offImpl(eventName?, listener?)\<close>. Both parameters may be left out (\<open>None\<close>). The first
  test is \<open>!eventName\<close>, which holds for \<open>undefined\<close> and for the empty string; the
  second is \<open>!listener\<close>, which for a function holds only when it is left out. The
  \<open>for ... in\<close> loop of the first branch visits the keys in the order the map holds them
  (JavaScript visits names that are array indices first; no property below depends on
  the order of the keys).
\<close>

definition removeAllSignals :: "listenerMap \<Rightarrow> signal list" where
  "removeAllSignals m =
     concat (map (\<lambda>(event, lset). map (\<lambda>l. removeListener event (fn l)) (listeners lset)) m)"

definition offImpl ::
  "listenerMap \<Rightarrow> string option \<Rightarrow> lid option \<Rightarrow> listenerMap \<times> signal list" where
  "offImpl m eventName' listener' =
     (case (if eventName' = Some [] then None else eventName') of
        None \<Rightarrow> ([], removeAllSignals m)
      | Some eventName \<Rightarrow>
          (case listener' of
             None \<Rightarrow>
               (case map_of m eventName of
                  None \<Rightarrow> (m, [])
                | Some lset \<Rightarrow>
                    (AList.delete eventName m,
                     map (\<lambda>l. removeListener eventName (fn l)) (listeners lset)))
           | Some listener \<Rightarrow>
               (case map_of m eventName of
                  None \<Rightarrow> (m, [])
                | Some lset \<Rightarrow>
                    (case indexOf (map fn (listeners lset)) listener of
                       None \<Rightarrow> (m, [])
                     | Some index \<Rightarrow>
                         (let rest = splice_out index (listeners lset) in
                          ((if rest = [] then AList.delete eventName m
                            else if index < passiveIdx lset then
                              AList.update eventName
                                \<lparr>listeners = rest, passiveIdx = passiveIdx lset - 1\<rparr> m
                            else
                              AList.update eventName
                                \<lparr>listeners = rest, passiveIdx = passiveIdx lset\<rparr> m),
                           [removeListener eventName (fn (listeners lset ! index))]))))))"

section \<open>Dispatch: \<open>emitImpl\<close>\<close>

text \<open>
  What one call of \<open>emitImpl\<close> does: how its promise completes, the listeners it invoked
  (in order, each with the arguments of the call), the detached emissions it started, and
  the store it leaves. A detached emission runs on its own, interleaved with the rest of
  this one; it is recorded, not run.
\<close>

datatype completion = Resolved bool | Rejected jsval

record emission =
  result :: completion
  calls :: "lid list"
  spawned :: "signal list"
  final :: heap

text \<open>
  \<open>const first = args[0]; const event = Event.isCancellable(first) ? first : undefined\<close>.
\<close>

definition governing :: "heap \<Rightarrow> jsval list \<Rightarrow> jsval option" where
  "governing h args =
     (let first = (case args of [] \<Rightarrow> VUndefined | a # _ \<Rightarrow> a)
      in if truthy (isCancellable h first) then Some first else None)"

text \<open>\<open>event && event.cancelled\<close>, the test before \<open>break\<close>.\<close>

definition cancelled_now :: "jsval option \<Rightarrow> heap \<Rightarrow> bool" where
  "cancelled_now event h =
     (case event of None \<Rightarrow> False | Some e \<Rightarrow> truthy (cancelled_of h e))"

text \<open>
  The test of the \<open>catch\<close> block apart from the event name:
  \<open>!errorSet || errorSet.listeners.length === 0\<close>.
\<close>

definition no_error_listeners :: "listenerMap \<Rightarrow> bool" where
  "no_error_listeners m =
     (case map_of m ''error'' of None \<Rightarrow> True | Some errorSet \<Rightarrow> listeners errorSet = [])"

definition finished :: "heap \<Rightarrow> emission" where
  "finished h = \<lparr>result = Resolved True, calls = [], spawned = [], final = h\<rparr>"

definition thrown :: "jsval \<Rightarrow> heap \<Rightarrow> emission" where
  "thrown error h = \<lparr>result = Rejected error, calls = [], spawned = [], final = h\<rparr>"

definition invoked :: "lid \<Rightarrow> emission \<Rightarrow> emission" where
  "invoked l r = r\<lparr>calls := l # calls r\<rparr>"

definition detached :: "signal \<Rightarrow> emission \<Rightarrow> emission" where
  "detached s r = r\<lparr>spawned := s # spawned r\<rparr>"

text \<open>
  The \<open>for ... of\<close> loop over \<open>set.listeners\<close>, from the listener it is about to invoke.
  The test for cancellation stands after the \<open>try\<close>/\<open>catch\<close> statement, so it is reached
  both when the listener returned and when its failure went to the \<open>error\<close> listeners.
\<close>

fun emit_loop ::
  "behaviour \<Rightarrow> listenerMap \<Rightarrow> string \<Rightarrow> jsval list \<Rightarrow> jsval option \<Rightarrow> lid list \<Rightarrow> heap
     \<Rightarrow> emission" where
  "emit_loop beh m eventName args event [] h = finished h"
| "emit_loop beh m eventName args event (listener # ls) h =
     (case beh listener args h of
        (Returned, h') \<Rightarrow>
          invoked listener
            (if cancelled_now event h' then finished h'
             else emit_loop beh m eventName args event ls h')
      | (Threw error, h') \<Rightarrow>
          if eventName = ''error'' \<or> no_error_listeners m then
            invoked listener (thrown error h')
          else
            invoked listener (detached (''error'', [error])
              (if cancelled_now event h' then finished h'
               else emit_loop beh m eventName args event ls h')))"

definition emitImpl ::
  "behaviour \<Rightarrow> listenerMap \<Rightarrow> string \<Rightarrow> jsval list \<Rightarrow> heap \<Rightarrow> emission" where
  "emitImpl beh m eventName args h =
     (let event = governing h args in
      case map_of m eventName of
        None \<Rightarrow> \<lparr>result = Resolved False, calls = [], spawned = [], final = h\<rparr>
      | Some lset \<Rightarrow> emit_loop beh m eventName args event (map fn (listeners lset)) h)"

section \<open>Auxiliary notions for the properties\<close>

text \<open>
  The invariant of one \<open>EventListenerSet\<close>: it is not empty, \<open>passiveIdx\<close> counts the
  listeners that are not passive, these stand before index \<open>passiveIdx\<close>, and the passive
  ones from there on.
\<close>

definition set_inv :: "EventListenerSet \<Rightarrow> bool" where
  "set_inv s \<longleftrightarrow>
     listeners s \<noteq> [] \<and>
     passiveIdx s = length (filter (\<lambda>e. \<not> is_passive e) (listeners s)) \<and>
     list_all (\<lambda>e. \<not> is_passive e) (take (passiveIdx s) (listeners s)) \<and>
     list_all is_passive (drop (passiveIdx s) (listeners s))"

definition reg_inv :: "listenerMap \<Rightarrow> bool" where
  "reg_inv m = list_all (\<lambda>(eventName, lset). set_inv lset) m"

text \<open>Whether an event name has at least one listener.\<close>

definition registered :: "listenerMap \<Rightarrow> string \<Rightarrow> bool" where
  "registered m eventName =
     (case map_of m eventName of None \<Rightarrow> False | Some lset \<Rightarrow> listeners lset \<noteq> [])"

text \<open>
  The store in which the loop of \<open>emitImpl\<close> arrives behind the listeners \<open>ls\<close>, when it
  gets there: \<open>None\<close> when one of them ends the loop, by \<open>break\<close> or by \<open>throw\<close>.
\<close>

fun reaches ::
  "behaviour \<Rightarrow> listenerMap \<Rightarrow> string \<Rightarrow> jsval list \<Rightarrow> jsval option \<Rightarrow> lid list \<Rightarrow> heap
     \<Rightarrow> heap option" where
  "reaches beh m eventName args event [] h = Some h"
| "reaches beh m eventName args event (listener # ls) h =
     (case beh listener args h of
        (Returned, h') \<Rightarrow>
          if cancelled_now event h' then None
          else reaches beh m eventName args event ls h'
      | (Threw error, h') \<Rightarrow>
          if eventName = ''error'' \<or> no_error_listeners m \<or> cancelled_now event h' then None
          else reaches beh m eventName args event ls h')"

text \<open>
  A sequence of \<open>on\<close>, \<open>addListener\<close>, \<open>addPassiveListener\<close> and \<open>prependListener\<close> calls on
  one event name, each given by its listener and its \<open>type\<close> argument; the listeners
  of the sequence that were registered with one tier, in the order of the calls; and the
  \<open>type\<close> arguments that name a tier.
\<close>

definition valid_tier :: "tier_arg option \<Rightarrow> bool" where
  "valid_tier t = (legacy t = ACTIVE \<or> legacy t = EARLY \<or> legacy t = PASSIVE)"

fun registerAll :: "listenerMap \<Rightarrow> string \<Rightarrow> (lid \<times> tier_arg option) list \<Rightarrow> listenerMap" where
  "registerAll m eventName [] = m"
| "registerAll m eventName ((listener, t) # cs) =
     registerAll (fst (onImpl m eventName listener t)) eventName cs"

definition tiered :: "tier_arg \<Rightarrow> (lid \<times> tier_arg option) list \<Rightarrow> lid list" where
  "tiered T cs = map fst (filter (\<lambda>(listener, t). legacy t = T) cs)"

text \<open>
  Concrete stores and listeners for the examples. \<open>no_events\<close> holds no event object;
  \<open>event_store c d\<close> holds at address 0 an \<open>Event\<close> with the fields \<open>cancellable = c\<close> and
  \<open>cancelled = d\<close>. In \<open>acts f\<close> the listener \<open>l\<close> first sets \<open>cancelled = true\<close> on its
  first argument when \<open>fst (f l)\<close> holds, and then throws \<open>v\<close> when \<open>snd (f l) = Some v\<close>.
  Listener 1 is the one that acts: it throws in \<open>boom\<close>, cancels in \<open>canceller\<close>, and cancels
  and then throws in \<open>cancel_boom\<close>.
\<close>

definition no_events :: heap where
  "no_events = (\<lambda>r. \<lparr>instanceofEvent = False, cancellable = VUndefined, cancelled = VUndefined\<rparr>)"

definition event_store :: "jsval \<Rightarrow> jsval \<Rightarrow> heap" where
  "event_store c d = no_events(0 := \<lparr>instanceofEvent = True, cancellable = c, cancelled = d\<rparr>)"

definition acts :: "(lid \<Rightarrow> bool \<times> jsval option) \<Rightarrow> behaviour" where
  "acts f l args h =
     (case snd (f l) of None \<Rightarrow> Returned | Some v \<Rightarrow> Threw v,
      if fst (f l) then
        (case args of VRef r # _ \<Rightarrow> h(r := (h r)\<lparr>cancelled := VBool True\<rparr>) | _ \<Rightarrow> h)
      else h)"

definition quiet :: "lid \<Rightarrow> bool \<times> jsval option" where
  "quiet l = (False, None)"

definition boom :: "lid \<Rightarrow> bool \<times> jsval option" where
  "boom l = (if l = 1 then (False, Some (VStr ''boom'')) else (False, None))"

definition canceller :: "lid \<Rightarrow> bool \<times> jsval option" where
  "canceller l = (if l = 1 then (True, None) else (False, None))"

definition cancel_boom :: "lid \<Rightarrow> bool \<times> jsval option" where
  "cancel_boom l = (if l = 1 then (True, Some (VStr ''boom'')) else (False, None))"

section \<open>Lemmas on the listener map\<close>

lemma set_inv_split:
  "set_inv s \<longleftrightarrow> listeners s \<noteq> [] \<and>
     (\<exists>xs ys. listeners s = xs @ ys \<and> passiveIdx s = length xs \<and>
        list_all (\<lambda>e. \<not> is_passive e) xs \<and> list_all is_passive ys)"
proof
  assume a: "set_inv s"
  let ?p = "passiveIdx s" and ?ls = "listeners s"
  have "?ls = take ?p ?ls @ drop ?p ?ls" by simp
  moreover have "?p \<le> length ?ls" using a by (simp add: set_inv_def)
  then have "?p = length (take ?p ?ls)" by simp
  ultimately show "listeners s \<noteq> [] \<and>
     (\<exists>xs ys. listeners s = xs @ ys \<and> passiveIdx s = length xs \<and>
        list_all (\<lambda>e. \<not> is_passive e) xs \<and> list_all is_passive ys)"
    using a unfolding set_inv_def by blast
next
  assume "listeners s \<noteq> [] \<and>
     (\<exists>xs ys. listeners s = xs @ ys \<and> passiveIdx s = length xs \<and>
        list_all (\<lambda>e. \<not> is_passive e) xs \<and> list_all is_passive ys)"
  then obtain xs ys where ne: "listeners s \<noteq> []" and l: "listeners s = xs @ ys"
    and p: "passiveIdx s = length xs"
    and x: "list_all (\<lambda>e. \<not> is_passive e) xs" and y: "list_all is_passive ys" by blast
  have "filter (\<lambda>e. \<not> is_passive e) xs = xs" using x by (simp add: list_all_iff)
  moreover have "filter (\<lambda>e. \<not> is_passive e) ys = []" using y by (simp add: list_all_iff)
  ultimately show "set_inv s" using ne l p x y by (simp add: set_inv_def)
qed









lemma set_invE:
  assumes "set_inv s"
  obtains xs ys where "listeners s = xs @ ys" and "passiveIdx s = length xs"
    and "list_all (\<lambda>e. \<not> is_passive e) xs" and "list_all is_passive ys" and "xs @ ys \<noteq> []"
  using assms unfolding set_inv_split by auto






lemma indexOf_Some: "indexOf xs x = Some i \<Longrightarrow> i < length xs \<and> xs ! i = x"
  by (induction xs arbitrary: i) (auto split: if_splits)







section \<open>Lemmas on the dispatch loop\<close>

lemma emission_sel [simp]:
  "result (invoked l r) = result r" "calls (invoked l r) = l # calls r"
  "spawned (invoked l r) = spawned r" "final (invoked l r) = final r"
  "result (detached s r) = result r" "calls (detached s r) = calls r"
  "spawned (detached s r) = s # spawned r" "final (detached s r) = final r"
  "result (finished h) = Resolved True" "calls (finished h) = []"
  "spawned (finished h) = []" "final (finished h) = h"
  "result (thrown v h) = Rejected v" "calls (thrown v h) = []"
  "spawned (thrown v h) = []" "final (thrown v h) = h"
  by (simp_all add: invoked_def detached_def finished_def thrown_def)




lemma emit_loop_calls_prefix:
  "\<exists>rest. ls = calls (emit_loop beh m e args ev ls h) @ rest"
  by (induction ls arbitrary: h) (auto split: prod.splits outcome.splits)

lemma emit_loop_append:
  "reaches beh m e args ev pre h = Some h1 \<Longrightarrow>
     result (emit_loop beh m e args ev (pre @ post) h) = result (emit_loop beh m e args ev post h1) \<and>
     calls (emit_loop beh m e args ev (pre @ post) h) = pre @ calls (emit_loop beh m e args ev post h1) \<and>
     final (emit_loop beh m e args ev (pre @ post) h) = final (emit_loop beh m e args ev post h1)"
  by (induction pre arbitrary: h) (auto split: prod.splits outcome.splits if_splits)



section \<open>Evaluating the model\<close>

lemmas model_defs =
  ACTIVE_def PASSIVE_def EARLY_def initialize_def onImpl_def offImpl_def emitImpl_def
  addPassiveListenerImpl_def prependListenerImpl_def governing_def cancelled_now_def
  no_error_listeners_def newListener_def removeListener_def removeAllSignals_def splice_in_def
  splice_out_def reg_inv_def set_inv_def registered_def valid_tier_def tiered_def
  no_events_def event_store_def acts_def quiet_def boom_def canceller_def cancel_boom_def Let_def

section \<open>The invariant of the listener map\<close>

text \<open>The invariant read index by index.\<close>

lemma set_inv_index:
  assumes "set_inv s" and "i < length (listeners s)"
  shows "i < passiveIdx s \<longleftrightarrow> \<not> is_passive (listeners s ! i)"
proof -
  from assms(1) obtain xs ys where l: "listeners s = xs @ ys"
    and p: "passiveIdx s = length xs"
    and x: "list_all (\<lambda>e. \<not> is_passive e) xs" and y: "list_all is_passive ys"
    by (rule set_invE)
  show ?thesis
  proof (cases "i < length xs")
    case True
    then show ?thesis using x l p by (simp add: nth_append list_all_length)
  next
    case False
    then have "i - length xs < length ys" using assms(2) l by simp
    then show ?thesis using False y l p by (simp add: nth_append list_all_length)
  qed
qed



section \<open>The order of the listeners\<close>



section \<open>What an emission resolves to\<close>




section \<open>Failures of listeners\<close>

text \<open>
  C3. If a listener throws (or its promise rejects) while the event \<open>error\<close> itself is
  emitted, or while the listener map has no entry for \<open>error\<close> or an entry without
  listeners, the emission rejects with the very value thrown, and none of the
  listeners after it is invoked. The listener may stand anywhere in the set: the loop
  reaches it behind the listeners \<open>pre\<close>.
\<close>

theorem unfunnelled_failure_rejects:
  assumes "map_of m eventName = Some lset"
    and "map fn (listeners lset) = pre @ listener # post"
    and "reaches beh m eventName args (governing h args) pre h = Some h1"
    and "beh listener args h1 = (Threw error, h2)"
    and "eventName = ''error'' \<or> no_error_listeners m"
  shows "result (emitImpl beh m eventName args h) = Rejected error \<and>
         calls (emitImpl beh m eventName args h) = pre @ [listener]"
proof -
  let ?ev = "governing h args"
  have e: "emitImpl beh m eventName args h =
      emit_loop beh m eventName args ?ev (pre @ listener # post) h"
    using assms(1,2) by (simp add: emitImpl_def)
  have "emit_loop beh m eventName args ?ev (listener # post) h1 = invoked listener (thrown error h2)"
    using assms(4,5) by auto
  with emit_loop_append [OF assms(3), of "listener # post"] e show ?thesis by simp
qed

theorem unfunnelled_failure_rejects_witness:
  "result (emitImpl (acts boom) (registerAll initialize ''x'' [(2, None), (1, None), (3, None)])
      ''x'' [] no_events) = Rejected (VStr ''boom'') \<and>
   calls (emitImpl (acts boom) (registerAll initialize ''x'' [(2, None), (1, None), (3, None)])
      ''x'' [] no_events) = [2, 1]"
proof -
  let ?m = "registerAll initialize ''x'' [(2, None), (1, None), (3, None)]"
  let ?s = "\<lparr>listeners = [Entry 2 False, Entry 1 False, Entry 3 False], passiveIdx = 3\<rparr>"
  have a: "map_of ?m ''x'' = Some ?s" by (simp add: model_defs)
  have b: "map fn (listeners ?s) = [2] @ 1 # [3]" by simp
  have c: "reaches (acts boom) ?m ''x'' [] (governing no_events []) [2] no_events = Some no_events"
    by (simp add: model_defs)
  have d: "acts boom 1 [] no_events = (Threw (VStr ''boom''), no_events)"
    by (simp add: model_defs)
  have e: "''x'' = ''error'' \<or> no_error_listeners ?m" by (simp add: model_defs)
  from unfunnelled_failure_rejects [OF a b c d e] show ?thesis by simp
qed




section \<open>Cancellation\<close>

text \<open>
  C5. When the first argument of \<open>emit\<close> is a governing event and, after some listener
  has returned, the \<open>cancelled\<close> flag of that event is set, \<open>emit\<close> invokes no further
  listener and resolves to \<open>true\<close>. With two listeners of which the first sets the flag
  (\<open>pre = []\<close>, \<open>post = [second]\<close>), the second is not invoked.
\<close>

theorem cancellation_short_circuits:
  assumes "map_of m eventName = Some lset"
    and "map fn (listeners lset) = pre @ listener # post"
    and "governing h args = Some event"
    and "reaches beh m eventName args (Some event) pre h = Some h1"
    and "beh listener args h1 = (Returned, h2)"
    and "truthy (cancelled_of h2 event)"
  shows "result (emitImpl beh m eventName args h) = Resolved True \<and>
         calls (emitImpl beh m eventName args h) = pre @ [listener]"
proof -
  have e: "emitImpl beh m eventName args h =
      emit_loop beh m eventName args (Some event) (pre @ listener # post) h"
    using assms(1,2,3) by (simp add: emitImpl_def)
  have "emit_loop beh m eventName args (Some event) (listener # post) h1 =
      invoked listener (finished h2)"
    using assms(5,6) by (simp add: cancelled_now_def)
  with emit_loop_append [OF assms(4), of "listener # post"] e show ?thesis by simp
qed

theorem cancellation_short_circuits_witness:
  "result (emitImpl (acts canceller) (registerAll initialize ''x'' [(1, None), (2, None)])
      ''x'' [VRef 0] (event_store (VBool True) (VBool False))) = Resolved True \<and>
   calls (emitImpl (acts canceller) (registerAll initialize ''x'' [(1, None), (2, None)])
      ''x'' [VRef 0] (event_store (VBool True) (VBool False))) = [1]"
proof -
  let ?m = "registerAll initialize ''x'' [(1, None), (2, None)]"
  let ?s = "\<lparr>listeners = [Entry 1 False, Entry 2 False], passiveIdx = 2\<rparr>"
  let ?h = "event_store (VBool True) (VBool False)"
  let ?h' = "event_store (VBool True) (VBool True)"
  have a: "map_of ?m ''x'' = Some ?s" by (simp add: model_defs)
  have b: "map fn (listeners ?s) = [] @ 1 # [2]" by simp
  have c: "governing ?h [VRef 0] = Some (VRef 0)" by (simp add: model_defs)
  have d: "reaches (acts canceller) ?m ''x'' [VRef 0] (Some (VRef 0)) [] ?h = Some ?h" by simp
  have e: "acts canceller 1 [VRef 0] ?h = (Returned, ?h')" by (simp add: model_defs)
  have f: "truthy (cancelled_of ?h' (VRef 0))" by (simp add: model_defs)
  from cancellation_short_circuits [OF a b c d e f] show ?thesis by simp
qed




section \<open>The governing event\<close>

text \<open>
  C8, as stated, fails: an \<open>Event\<close> whose field \<open>cancellable\<close> is \<open>1\<close>, or a string that is
  not empty, is tracked as the governing event, although the field is not \<open>true\<close>.
\<close>

theorem strict_cancellable_counterexample:
  "instanceofEvent (event_store (VNum 1) (VBool False) 0) \<and>
   cancellable (event_store (VNum 1) (VBool False) 0) \<noteq> VBool True \<and>
   governing (event_store (VNum 1) (VBool False)) [VRef 0] = Some (VRef 0) \<and>
   governing (event_store (VStr ''yes'') (VBool False)) [VRef 0] = Some (VRef 0)"
  by (simp add: model_defs)

text \<open>
  C8, amended. The first argument of \<open>emit\<close> is tracked as the governing event if and
  only if it is an instance of \<open>Event\<close> and its field \<open>cancellable\<close> is truthy: \<open>true\<close>
  qualifies, and so does every other truthy value.
\<close>

theorem governing_signal_truthy:
  "governing h args = Some v \<longleftrightarrow>
     (\<exists>r rest. args = VRef r # rest \<and> v = VRef r \<and> instanceofEvent (h r) \<and>
        truthy (cancellable (h r)))"
proof (cases args)
  case Nil
  then show ?thesis by (simp add: governing_def)
next
  case (Cons a rest)
  then show ?thesis by (cases a) (auto simp: governing_def)
qed

section \<open>A tier that is not one\<close>

text \<open>
  C7 asks that a \<open>type\<close> argument that is none of \<open>ACTIVE\<close>, \<open>EARLY\<close>, \<open>PASSIVE\<close>, \<open>true\<close>
  and \<open>false\<close> be rejected or handled as \<open>ACTIVE\<close>. The code does so only while the event
  name has no listeners. Here \<open>on("x", 2, 5)\<close> after \<open>on("x", 1)\<close> leaves the listener
  map as it was and still starts the \<open>newListener\<close> emission; \<open>emit("x")\<close> then invokes
  listener 1 alone, where with \<open>ACTIVE\<close> it invokes 1 and 2. On a fresh event name the same
  argument does what \<open>ACTIVE\<close> does.
\<close>

theorem invalid_tier_dropped:
  "onImpl (fst (onImpl initialize ''x'' 1 None)) ''x'' 2 (Some (TNum 5)) =
     (fst (onImpl initialize ''x'' 1 None), [newListener ''x'' 2]) \<and>
   calls (emitImpl (acts quiet)
      (fst (onImpl (fst (onImpl initialize ''x'' 1 None)) ''x'' 2 (Some (TNum 5))))
      ''x'' [] no_events) = [1] \<and>
   calls (emitImpl (acts quiet)
      (fst (onImpl (fst (onImpl initialize ''x'' 1 None)) ''x'' 2 (Some ACTIVE)))
      ''x'' [] no_events) = [1, 2] \<and>
   onImpl initialize ''x'' 2 (Some (TNum 5)) = onImpl initialize ''x'' 2 (Some ACTIVE)"
  by (simp add: model_defs)

section \<open>Removal with an empty event name\<close>

text \<open>
  C9. \<open>off("")\<close>, with or without a listener, takes the branch that removes everything:
  it does what \<open>off()\<close> does, starts a \<open>removeListener\<close> emission for every listener of
  every event and leaves the listener map empty. Yet \<open>on("", f)\<close> registers \<open>f\<close> under
  the name \<open>""\<close> and \<open>emit("")\<close> invokes it, as for any other name.
\<close>

theorem off_empty_name_removes_all:
  "offImpl m (Some '''') listener = ([], removeAllSignals m) \<and>
   offImpl m (Some '''') listener = offImpl m None listener \<and>
   set (removeAllSignals m) =
     {removeListener event (fn l) | event lset l. (event, lset) \<in> set m \<and> l \<in> set (listeners lset)} \<and>
   map_of (fst (onImpl initialize '''' f t)) '''' =
     Some \<lparr>listeners = [Entry f (legacy t = PASSIVE)],
           passiveIdx = (if legacy t = PASSIVE then 0 else 1)\<rparr> \<and>
   calls (emitImpl beh (fst (onImpl initialize '''' f t)) '''' args h) = [f]"
proof -
  have "set (removeAllSignals m) =
     {removeListener event (fn l) | event lset l. (event, lset) \<in> set m \<and> l \<in> set (listeners lset)}"
    unfolding removeAllSignals_def by force
  moreover have "calls (emitImpl beh (fst (onImpl initialize '''' f t)) '''' args h) = [f]"
    by (cases "beh f args h")
      (auto simp: emitImpl_def onImpl_def initialize_def Let_def split: outcome.splits)
  ultimately show ?thesis by (simp add: offImpl_def onImpl_def initialize_def Let_def)
qed

theorem off_empty_name_removes_all_witness:
  "offImpl (registerAll (fst (onImpl initialize '''' 1 None)) ''x'' [(2, None), (3, Some PASSIVE)])
      (Some '''') (Some 1) =
     ([], [removeListener '''' 1, removeListener ''x'' 2, removeListener ''x'' 3]) \<and>
   offImpl (registerAll (fst (onImpl initialize '''' 1 None)) ''x'' [(2, None), (3, Some PASSIVE)])
      (Some ''x'') (Some 2) =
     ([('''', \<lparr>listeners = [Entry 1 False], passiveIdx = 1\<rparr>),
       (''x'', \<lparr>listeners = [Entry 3 True], passiveIdx = 0\<rparr>)], [removeListener ''x'' 2])"
proof -
  let ?m = "registerAll (fst (onImpl initialize '''' 1 None)) ''x'' [(2, None), (3, Some PASSIVE)]"
  have "removeAllSignals ?m = [removeListener '''' 1, removeListener ''x'' 2, removeListener ''x'' 3]"
    by (simp add: model_defs)
  moreover have "offImpl ?m (Some ''x'') (Some 2) =
     ([('''', \<lparr>listeners = [Entry 1 False], passiveIdx = 1\<rparr>),
       (''x'', \<lparr>listeners = [Entry 3 True], passiveIdx = 0\<rparr>)], [removeListener ''x'' 2])"
    by (simp add: model_defs)
  ultimately show ?thesis
    using off_empty_name_removes_all [of ?m "Some 1"] by simp
qed

end
